theory Spec2Isabelle
  imports Main "HOL-Library.Sublist"
begin

section \<open>Text and characters\<close>

text \<open>
  The program is \<^verbatim>\<open>remove_comments.py\<close>. A Python \<^verbatim>\<open>str\<close> is a sequence of Unicode code
  points, so a text is a list of code points (natural numbers); \<open>str ''abc''\<close> is the
  text of an ASCII literal. The characters the program's patterns name are given names.
\<close>

type_synonym ustr = "nat list"

abbreviation str :: "string \<Rightarrow> ustr" where
  "str s \<equiv> map of_char s"

abbreviation LF :: nat where "LF \<equiv> 10"
abbreviation CR :: nat where "CR \<equiv> 13"
abbreviation DQUOTE :: nat where "DQUOTE \<equiv> 34"
abbreviation HASH :: nat where "HASH \<equiv> 35"
abbreviation SQUOTE :: nat where "SQUOTE \<equiv> 39"
abbreviation STAR :: nat where "STAR \<equiv> 42"
abbreviation SLASH :: nat where "SLASH \<equiv> 47"
abbreviation BACKSLASH :: nat where "BACKSLASH \<equiv> 92"
abbreviation BACKTICK :: nat where "BACKTICK \<equiv> 96"

section \<open>The regular expressions of Python's \<open>re\<close> that the program uses\<close>

text \<open>
  The constructs that occur in the four patterns: a literal character, \<^verbatim>\<open>.\<close> (any
  character but the line feed: no pattern sets DOTALL), a negated class \<^verbatim>\<open>[^...]\<close>, the class
  \<^verbatim>\<open>[\s\S]\<close> (any character), \<^verbatim>\<open>$\<close> under MULTILINE (end of text or just before a line
  feed), sequence, alternation, the greedy star and the lazy star \<^verbatim>\<open>*?\<close>.
\<close>

datatype rx =
    Lit nat
  | Dot
  | NoneOf "nat list"
  | AnyCh
  | Eol
  | Cat rx rx
  | Or rx rx
  | Star rx
  | Lazy rx

text \<open>
  \<open>ms r s\<close> lists, in the order a backtracking matcher tries them, the texts that remain
  after \<open>r\<close> has matched a prefix of \<open>s\<close>: an alternation tries its left branch first, a
  greedy star tries one more iteration before stopping, a lazy star stops before it
  tries one more. The head of the list is the match that \<open>re\<close> reports. An iteration
  that consumes nothing is not repeated.
\<close>

function ms :: "rx \<Rightarrow> ustr \<Rightarrow> ustr list" where
  "ms (Lit c) s = (case s of [] \<Rightarrow> [] | x # xs \<Rightarrow> if x = c then [xs] else [])"
| "ms Dot s = (case s of [] \<Rightarrow> [] | x # xs \<Rightarrow> if x \<noteq> LF then [xs] else [])"
| "ms (NoneOf cs) s = (case s of [] \<Rightarrow> [] | x # xs \<Rightarrow> if x \<notin> set cs then [xs] else [])"
| "ms AnyCh s = (case s of [] \<Rightarrow> [] | x # xs \<Rightarrow> [xs])"
| "ms Eol s = (case s of [] \<Rightarrow> [s] | x # xs \<Rightarrow> if x = LF then [s] else [])"
| "ms (Cat a b) s = concat (map (ms b) (ms a s))"
| "ms (Or a b) s = ms a s @ ms b s"
| "ms (Star a) s =
     concat (map (ms (Star a)) (filter (\<lambda>t. length t < length s) (ms a s))) @ [s]"
| "ms (Lazy a) s =
     s # concat (map (ms (Lazy a)) (filter (\<lambda>t. length t < length s) (ms a s)))"
  by pat_completeness auto
termination
  by (relation "measures [\<lambda>(r, s). size r, \<lambda>(r, s). length s]") auto

text \<open>
  A pattern is the alternation of its capture groups, tried in order at one position.
  The match object is modelled by the number of the group that matched (from 1) and
  the text left after the match.
\<close>

fun match_groups :: "nat \<Rightarrow> rx list \<Rightarrow> ustr \<Rightarrow> (nat \<times> ustr) option" where
  "match_groups n [] s = None"
| "match_groups n (g # gs) s =
     (case ms g s of [] \<Rightarrow> match_groups (Suc n) gs s | t # ts \<Rightarrow> Some (n, t))"

text \<open>
  \<^verbatim>\<open>re.sub(pattern, repl, content)\<close>: scan from the left; where the pattern matches,
  emit the replacement and go on after the match; elsewhere keep the character.
  \<open>repl g m\<close> is the replacement for the text \<open>m\<close> matched by group \<open>g\<close>. None of the
  program's patterns matches the empty text (lemmas \<open>*_progress\<close> below), so the
  treatment of empty matches by \<open>re\<close> is not modelled: the scanner steps over them.
\<close>

function re_sub :: "rx list \<Rightarrow> (nat \<Rightarrow> ustr \<Rightarrow> ustr) \<Rightarrow> ustr \<Rightarrow> ustr" where
  "re_sub gs repl [] = []"
| "re_sub gs repl (c # cs) =
     (case match_groups 1 gs (c # cs) of
        None \<Rightarrow> c # re_sub gs repl cs
      | Some (g, t) \<Rightarrow>
          if length t < length (c # cs)
          then repl g (take (length (c # cs) - length t) (c # cs)) @ re_sub gs repl t
          else c # re_sub gs repl cs)"
  by pat_completeness auto
termination
  by (relation "measure (\<lambda>(gs, repl, s). length s)") auto

section \<open>The four comment strippers\<close>

text \<open>
  \<^verbatim>\<open>'(?:\\.|[^\\'])*'\<close> and its double-quoted twin, for the quote character \<open>q\<close>.
\<close>

definition quoted_rx :: "nat \<Rightarrow> rx" where
  "quoted_rx q =
     Cat (Lit q) (Cat (Star (Or (Cat (Lit BACKSLASH) Dot) (NoneOf [BACKSLASH, q]))) (Lit q))"

text \<open>The template literal: \<^verbatim>\<open>`(?:\\.|[^`])*`\<close>. Its class does not exclude the backslash.\<close>

definition template_rx :: rx where
  "template_rx =
     Cat (Lit BACKTICK) (Cat (Star (Or (Cat (Lit BACKSLASH) Dot) (NoneOf [BACKTICK]))) (Lit BACKTICK))"

text \<open>\<^verbatim>\<open>/\*[\s\S]*?\*/\<close>\<close>

definition block_rx :: rx where
  "block_rx = Cat (Lit SLASH) (Cat (Lit STAR) (Cat (Lazy AnyCh) (Cat (Lit STAR) (Lit SLASH))))"

text \<open>\<^verbatim>\<open>//.*\<close>\<close>

definition line_rx :: rx where
  "line_rx = Cat (Lit SLASH) (Cat (Lit SLASH) (Star Dot))"

text \<open>\<^verbatim>\<open><!--[\s\S]*?-->\<close>\<close>

definition markup_rx :: rx where
  "markup_rx =
     Cat (Lit 60) (Cat (Lit 33) (Cat (Lit 45) (Cat (Lit 45)
       (Cat (Lazy AnyCh) (Cat (Lit 45) (Cat (Lit 45) (Lit 62)))))))"

text \<open>\<^verbatim>\<open>#.*$\<close>\<close>

definition hash_rx :: rx where
  "hash_rx = Cat (Lit HASH) (Cat (Star Dot) Eol)"

text \<open>
  \<^verbatim>\<open>remove_js_ts_comments\<close>: group 1 is a string or template literal, group 2 a block
  comment, group 3 a line comment. The replacer returns group 1 when it is set and
  non-empty, and the empty text otherwise.
\<close>

definition js_pattern :: "rx list" where
  "js_pattern = [Or (Or (quoted_rx SQUOTE) (quoted_rx DQUOTE)) template_rx, block_rx, line_rx]"

definition js_replacer :: "nat \<Rightarrow> ustr \<Rightarrow> ustr" where
  "js_replacer g m = (if g = 1 \<and> m \<noteq> [] then m else [])"

definition remove_js_ts_comments :: "ustr \<Rightarrow> ustr" where
  "remove_js_ts_comments content = re_sub js_pattern js_replacer content"

definition remove_html_comments :: "ustr \<Rightarrow> ustr" where
  "remove_html_comments content = re_sub [markup_rx] (\<lambda>g m. []) content"

definition remove_css_comments :: "ustr \<Rightarrow> ustr" where
  "remove_css_comments content = re_sub [block_rx] (\<lambda>g m. []) content"

definition yml_pattern :: "rx list" where
  "yml_pattern = [Or (quoted_rx SQUOTE) (quoted_rx DQUOTE), hash_rx]"

definition yml_replacer :: "nat \<Rightarrow> ustr \<Rightarrow> ustr" where
  "yml_replacer g m = (if g = 1 \<and> m \<noteq> [] then m else if g = 2 \<and> m \<noteq> [] then [] else [])"

definition remove_yml_comments :: "ustr \<Rightarrow> ustr" where
  "remove_yml_comments content = re_sub yml_pattern yml_replacer content"

section \<open>Blank-line compaction\<close>

text \<open>
  \<^verbatim>\<open>str.splitlines()\<close> ends a line at LF, CR, CR LF, VT, FF, FS, GS, RS, NEL, LS and PS;
  a terminator at the very end of the text opens no further line. The scan takes the
  characters up to the next terminator as a line and steps over the terminator: over
  two characters for CR LF, over one otherwise.
\<close>

definition is_linebreak :: "nat \<Rightarrow> bool" where
  "is_linebreak c = (c \<in> set [10, 11, 12, 13, 28, 29, 30, 133, 8232, 8233])"

definition skip_break :: "ustr \<Rightarrow> ustr" where
  "skip_break r =
     (case r of
        [] \<Rightarrow> []
      | b # r1 \<Rightarrow> (case r1 of [] \<Rightarrow> [] | d # r2 \<Rightarrow> if b = CR \<and> d = LF then r2 else r1))"

lemma skip_break_length: "length (skip_break (dropWhile P (c # cs))) < length (c # cs)"
proof -
  have "length (skip_break r) \<le> length r - 1" for r :: ustr
    by (simp add: skip_break_def split: list.splits)
  moreover have "length (dropWhile P (c # cs)) \<le> length (c # cs)"
    by (rule length_dropWhile_le)
  ultimately show ?thesis
    by (metis One_nat_def Suc_pred le_imp_less_Suc le_trans length_Cons diff_le_mono
        diff_Suc_1 zero_less_Suc)
qed

function splitlines :: "ustr \<Rightarrow> ustr list" where
  "splitlines [] = []"
| "splitlines (c # cs) =
     takeWhile (\<lambda>x. \<not> is_linebreak x) (c # cs) #
     splitlines (skip_break (dropWhile (\<lambda>x. \<not> is_linebreak x) (c # cs)))"
  by pat_completeness auto
termination
  by (relation "measure length") (simp_all only: wf_measure in_measure skip_break_length)

text \<open>\<^verbatim>\<open>str.strip()\<close> removes the white space (\<^verbatim>\<open>str.isspace\<close>) at both ends.\<close>

definition is_space :: "nat \<Rightarrow> bool" where
  "is_space c =
     (c \<in> set [9, 10, 11, 12, 13, 28, 29, 30, 31, 32, 133, 160, 5760,
                8192, 8193, 8194, 8195, 8196, 8197, 8198, 8199, 8200, 8201, 8202,
                8232, 8233, 8239, 8287, 12288])"

definition strip :: "ustr \<Rightarrow> ustr" where
  "strip s = rev (dropWhile is_space (rev (dropWhile is_space s)))"

text \<open>\<^verbatim>\<open>'\n'.join(lines)\<close>\<close>

fun join_lines :: "ustr list \<Rightarrow> ustr" where
  "join_lines [] = []"
| "join_lines [l] = l"
| "join_lines (l # l' # ls) = l @ LF # join_lines (l' # ls)"

text \<open>
  The end of \<^verbatim>\<open>process_file\<close>: the lines whose stripped text is not empty, joined by
  line feeds and closed by one, or the empty text when no line is left.
\<close>

definition final_content :: "ustr \<Rightarrow> ustr" where
  "final_content new_content =
     (let lines = filter (\<lambda>line. strip line \<noteq> []) (splitlines new_content)
      in if lines \<noteq> [] then join_lines lines @ [LF] else [])"

section \<open>Files\<close>

text \<open>
  \<^verbatim>\<open>os.path.splitext\<close> (POSIX): the extension starts at the last dot of the last path
  component, unless only dots precede it there. \<open>rfind\<close> is \<^verbatim>\<open>str.rfind\<close>, which
  answers \<open>-1\<close> when the character does not occur.
\<close>

definition rfind :: "nat \<Rightarrow> ustr \<Rightarrow> int" where
  "rfind c p =
     (if c \<in> set p then int (length p) - 1 - int (length (takeWhile (\<lambda>x. x \<noteq> c) (rev p)))
      else - 1)"

definition splitext :: "ustr \<Rightarrow> ustr \<times> ustr" where
  "splitext p =
     (let sepIndex = rfind SLASH p; dotIndex = rfind 46 p
      in if dotIndex > sepIndex \<and>
            list_ex (\<lambda>x. x \<noteq> 46)
              (take (nat (dotIndex - (sepIndex + 1))) (drop (nat (sepIndex + 1)) p))
         then (take (nat dotIndex) p, drop (nat dotIndex) p)
         else (p, []))"

text \<open>
  The dispatch of \<^verbatim>\<open>process_file\<close> on the extension; \<open>None\<close> is its bare \<^verbatim>\<open>return\<close>
  for an extension it does not know.
\<close>

definition new_content :: "ustr \<Rightarrow> ustr \<Rightarrow> ustr option" where
  "new_content extension content =
     (if extension \<in> set [str ''.ts'', str ''.tsx''] then Some (remove_js_ts_comments content)
      else if extension = str ''.html'' then Some (remove_html_comments content)
      else if extension = str ''.css'' then Some (remove_css_comments content)
      else if extension = str ''.yml'' then Some (remove_yml_comments content)
      else None)"

text \<open>
  The part of \<^verbatim>\<open>process_file\<close> between reading and writing: the text it writes back
  for a file of the given extension, or \<open>None\<close> when it writes nothing.
\<close>

definition process_content :: "ustr \<Rightarrow> ustr \<Rightarrow> ustr option" where
  "process_content extension content = map_option final_content (new_content extension content)"

text \<open>
  \<^verbatim>\<open>open(filepath, 'r')\<close> reads in text mode with universal newlines: CR LF and a lone CR
  arrive as LF. The flag says that the character before was a CR.
\<close>

primrec universal_newlines :: "bool \<Rightarrow> ustr \<Rightarrow> ustr" where
  "universal_newlines after_cr [] = []"
| "universal_newlines after_cr (c # cs) =
     (if c = CR then LF # universal_newlines True cs
      else if c = LF \<and> after_cr then universal_newlines False cs
      else c # universal_newlines False cs)"

text \<open>
  The file system maps a path to the decoded text of a readable file. A file that
  cannot be read (absent, or not UTF-8) is reported and left alone. Writing is on a
  POSIX system (a line feed is written as it is) and is taken to succeed.
\<close>

type_synonym files = "ustr \<rightharpoonup> ustr"

definition process_file :: "ustr \<Rightarrow> files \<Rightarrow> files" where
  "process_file filepath fs =
     (case fs filepath of
        None \<Rightarrow> fs
      | Some raw \<Rightarrow>
          (case process_content (snd (splitext filepath)) (universal_newlines False raw) of
             None \<Rightarrow> fs
           | Some final \<Rightarrow> fs(filepath \<mapsto> final)))"

section \<open>The patterns as direct scanners\<close>

text \<open>
  Each pattern's first match is computed by a plain recursive scanner; the lemmas
  below prove that the scanner and the backtracking matcher agree, so that the
  properties of the strippers can be proved on the scanners.
\<close>

fun scan_quoted :: "nat \<Rightarrow> ustr \<Rightarrow> ustr option" where
  "scan_quoted q [] = None"
| "scan_quoted q (c # cs) =
     (if c = BACKSLASH then (case cs of [] \<Rightarrow> None | d # ds \<Rightarrow> if d = LF then None else scan_quoted q ds)
      else if c = q then Some cs
      else scan_quoted q cs)"

fun scan_template :: "ustr \<Rightarrow> ustr option" where
  "scan_template [] = None"
| "scan_template (c # cs) =
     (if c = BACKTICK then Some cs
      else if c = BACKSLASH then
        (case cs of
           [] \<Rightarrow> None
         | d # ds \<Rightarrow>
             if d = LF then scan_template cs
             else (case scan_template ds of Some t \<Rightarrow> Some t | None \<Rightarrow> scan_template cs))
      else scan_template cs)"

fun find_after :: "ustr \<Rightarrow> ustr \<Rightarrow> ustr option" where
  "find_after t [] = None"
| "find_after t (c # cs) =
     (if prefix t (c # cs) then Some (drop (length t) (c # cs)) else find_after t cs)"

definition first :: "'a list \<Rightarrow> 'a option" where
  "first xs = (case xs of [] \<Rightarrow> None | x # _ \<Rightarrow> Some x)"

lemma first_simps [simp]: "first [] = None" "first (x # xs) = Some x"
  by (simp_all add: first_def)

lemma first_append: "first (xs @ ys) = (case first xs of Some t \<Rightarrow> Some t | None \<Rightarrow> first ys)"
  by (cases xs) simp_all

lemma match_groups_first:
  "match_groups n (g # gs) s = (case first (ms g s) of Some t \<Rightarrow> Some (n, t) | None \<Rightarrow> match_groups (Suc n) gs s)"
  by (cases "ms g s") simp_all

abbreviation qbody :: "nat \<Rightarrow> rx" where
  "qbody q \<equiv> Or (Cat (Lit BACKSLASH) Dot) (NoneOf [BACKSLASH, q])"

lemma ms_quoted_tail:
  "q \<noteq> BACKSLASH \<Longrightarrow>
   ms (Cat (Star (qbody q)) (Lit q)) s = (case scan_quoted q s of None \<Rightarrow> [] | Some t \<Rightarrow> [t])"
proof (induction q s rule: scan_quoted.induct)
  case (1 q)
  then show ?case by simp
next
  case (2 q c cs)
  show ?case
  proof (cases "c = BACKSLASH")
    case True
    show ?thesis
    proof (cases cs)
      case Nil
      with True "2.prems" show ?thesis by simp
    next
      case (Cons d ds)
      show ?thesis
      proof (cases "d = LF")
        case True
        with Cons \<open>c = BACKSLASH\<close> "2.prems" show ?thesis by simp
      next
        case False
        with 2 Cons \<open>c = BACKSLASH\<close> have "ms (Cat (Star (qbody q)) (Lit q)) ds =
          (case scan_quoted q ds of None \<Rightarrow> [] | Some t \<Rightarrow> [t])" by simp
        with False Cons \<open>c = BACKSLASH\<close> "2.prems" show ?thesis by simp
      qed
    qed
  next
    case False
    show ?thesis
    proof (cases "c = q")
      case True
      with False "2.prems" show ?thesis by simp
    next
      case neq: False
      with 2 False have "ms (Cat (Star (qbody q)) (Lit q)) cs =
          (case scan_quoted q cs of None \<Rightarrow> [] | Some t \<Rightarrow> [t])" by simp
      with False neq "2.prems" show ?thesis by simp
    qed
  qed
qed


abbreviation tbody :: rx where
  "tbody \<equiv> Or (Cat (Lit BACKSLASH) Dot) (NoneOf [BACKTICK])"

lemma cat_star_aux:
  "concat (map (ms r) (concat (map (ms (Star b)) F))) = concat (map (ms (Cat (Star b) r)) F)"
  by (induction F) (simp_all del: ms.simps(8))

lemma ms_cat_star:
  "ms (Cat (Star b) r) s =
     concat (map (ms (Cat (Star b) r)) (filter (\<lambda>t. length t < length s) (ms b s))) @ ms r s"
  by (simp only: ms.simps(6,8) map_append concat_append cat_star_aux) simp

lemma ms_tbody:
  "ms tbody (c # cs) =
     (if c = BACKSLASH then (case cs of [] \<Rightarrow> [] | d # ds \<Rightarrow> if d \<noteq> LF then [ds] else []) @ [cs]
      else if c \<noteq> BACKTICK then [cs] else [])"
  by (simp split: list.splits)

lemma ms_tbody_nil: "ms tbody [] = []"
  by simp

lemma first_template_tail:
  "first (ms (Cat (Star tbody) (Lit BACKTICK)) s) = scan_template s"
proof (induction s rule: scan_template.induct)
  case 1
  show ?case
    by (subst ms_cat_star) (simp add: ms_tbody_nil del: ms.simps(6,7,8))
next
  case (2 c cs)
  show ?case
  proof (cases "c = BACKTICK")
    case True
    then show ?thesis
      by (subst ms_cat_star) (simp add: ms_tbody del: ms.simps(6,7,8))
  next
    case nbt: False
    show ?thesis
    proof (cases "c = BACKSLASH")
      case False
      with nbt 2 show ?thesis
        by (subst ms_cat_star) (simp add: ms_tbody del: ms.simps(6,7,8))
    next
      case True
      show ?thesis
      proof (cases cs)
        case Nil
        with True show ?thesis
          apply (subst ms_cat_star)
          apply (simp add: ms_tbody del: ms.simps(6,7,8))
          apply (subst ms_cat_star)
          apply (simp add: ms_tbody_nil del: ms.simps(6,7,8))
          done
      next
        case (Cons d ds)
        show ?thesis
        proof (cases "d = LF")
          case True
          with Cons \<open>c = BACKSLASH\<close> 2 show ?thesis
            by (subst ms_cat_star) (simp add: ms_tbody del: ms.simps(6,7,8))
        next
          case False
          with Cons \<open>c = BACKSLASH\<close> 2 show ?thesis
            by (subst ms_cat_star)
               (simp add: ms_tbody first_append del: ms.simps(6,7,8) split: option.splits)
        qed
      qed
    qed
  qed
qed

lemma ms_lazy_any: "ms (Lazy AnyCh) (c # cs) = (c # cs) # ms (Lazy AnyCh) cs"
  by simp

lemma ms_lazy_any_nil: "ms (Lazy AnyCh) [] = [[]]"
  by simp

lemma ms_lazy_any_cat:
  "ms (Cat (Lazy AnyCh) r) (c # cs) = ms r (c # cs) @ ms (Cat (Lazy AnyCh) r) cs"
  by (simp only: ms.simps(6) ms_lazy_any list.map concat.simps)

lemma ms_lazy_any_cat_nil: "ms (Cat (Lazy AnyCh) r) [] = ms r []"
  by (simp only: ms.simps(6) ms_lazy_any_nil list.map concat.simps append_Nil2)

lemma ms_lits2:
  "ms (Cat (Lit a) (Lit b)) s = (if prefix [a, b] s then [drop 2 s] else [])"
  by (auto split: list.splits)

lemma ms_lits3:
  "ms (Cat (Lit a) (Cat (Lit b) (Lit c))) s = (if prefix [a, b, c] s then [drop 3 s] else [])"
  by (auto split: list.splits)

lemma first_block_tail:
  "first (ms (Cat (Lazy AnyCh) (Cat (Lit STAR) (Lit SLASH))) s) = find_after [STAR, SLASH] s"
proof (induction s)
  case Nil
  show ?case by (simp only: ms_lazy_any_cat_nil ms_lits2) simp
next
  case (Cons c cs)
  then show ?case
    by (simp only: ms_lazy_any_cat ms_lits2 first_append find_after.simps) (simp del: ms.simps)
qed

lemma first_markup_tail:
  "first (ms (Cat (Lazy AnyCh) (Cat (Lit 45) (Cat (Lit 45) (Lit 62)))) s) = find_after [45, 45, 62] s"
proof (induction s)
  case Nil
  show ?case by (simp only: ms_lazy_any_cat_nil ms_lits3) simp
next
  case (Cons c cs)
  then show ?case
    by (simp only: ms_lazy_any_cat ms_lits3 first_append find_after.simps)
       (simp add: numeral_3_eq_3 del: ms.simps)
qed

lemma ms_star_dot_step:
  "ms (Star Dot) (c # cs) = (if c \<noteq> LF then ms (Star Dot) cs @ [c # cs] else [c # cs])"
  by simp

lemma ms_star_dot: "\<exists>rest. ms (Star Dot) s = dropWhile (\<lambda>x. x \<noteq> LF) s # rest"
proof (induction s)
  case Nil
  show ?case by simp
next
  case (Cons c cs)
  then obtain rest where "ms (Star Dot) cs = dropWhile (\<lambda>x. x \<noteq> LF) cs # rest"
    by blast
  then show ?case
    by (simp only: ms_star_dot_step) simp
qed

lemma first_line_tail: "first (ms (Star Dot) s) = Some (dropWhile (\<lambda>x. x \<noteq> LF) s)"
  using ms_star_dot [of s] by auto

lemma first_hash_tail: "first (ms (Cat (Star Dot) Eol) s) = Some (dropWhile (\<lambda>x. x \<noteq> LF) s)"
proof -
  define r where "r = dropWhile (\<lambda>x. x \<noteq> LF) s"
  obtain rest where m: "ms (Star Dot) s = r # rest"
    unfolding r_def using ms_star_dot by blast
  have "r = [] \<or> (\<exists>t. r = LF # t)"
  proof (cases r)
    case Nil
    then show ?thesis by simp
  next
    case (Cons a t)
    then have "a = LF" unfolding r_def by (simp add: dropWhile_eq_Cons_conv)
    with Cons show ?thesis by simp
  qed
  then have "ms Eol r = [r]" by auto
  with m show ?thesis by (simp add: r_def del: ms.simps(5,8))
qed

subsection \<open>The first match of each pattern\<close>

lemma ms_cat_lit:
  "ms (Cat (Lit a) r) s = (case s of [] \<Rightarrow> [] | c # cs \<Rightarrow> if c = a then ms r cs else [])"
  by (simp split: list.splits)

lemma first_quoted:
  "q \<noteq> BACKSLASH \<Longrightarrow>
   first (ms (quoted_rx q) s) =
     (case s of [] \<Rightarrow> None | c # cs \<Rightarrow> if c = q then scan_quoted q cs else None)"
  unfolding quoted_rx_def
  by (simp add: ms_cat_lit ms_quoted_tail del: ms.simps split: list.splits option.splits)

lemma first_template:
  "first (ms template_rx s) =
     (case s of [] \<Rightarrow> None | c # cs \<Rightarrow> if c = BACKTICK then scan_template cs else None)"
  unfolding template_rx_def
  by (simp only: ms_cat_lit) (simp add: first_template_tail del: ms.simps split: list.splits)

lemma first_block:
  "first (ms block_rx s) =
     (case s of [] \<Rightarrow> None
      | c # cs \<Rightarrow>
          (case cs of [] \<Rightarrow> None
           | d # ds \<Rightarrow> if c = SLASH \<and> d = STAR then find_after [STAR, SLASH] ds else None))"
  unfolding block_rx_def
  by (simp only: ms_cat_lit) (simp add: first_block_tail del: ms.simps split: list.splits)

lemma first_line:
  "first (ms line_rx s) =
     (case s of [] \<Rightarrow> None
      | c # cs \<Rightarrow>
          (case cs of [] \<Rightarrow> None
           | d # ds \<Rightarrow> if c = SLASH \<and> d = SLASH then Some (dropWhile (\<lambda>x. x \<noteq> LF) ds) else None))"
  unfolding line_rx_def
  by (simp only: ms_cat_lit) (simp add: first_line_tail del: ms.simps split: list.splits)

lemma first_markup:
  "first (ms markup_rx s) =
     (if prefix [60, 33, 45, 45] s then find_after [45, 45, 62] (drop 4 s) else None)"
  unfolding markup_rx_def
  by (simp only: ms_cat_lit)
     (simp add: first_markup_tail del: ms.simps split: list.splits)

lemma first_hash:
  "first (ms hash_rx s) =
     (case s of [] \<Rightarrow> None
      | c # cs \<Rightarrow> if c = HASH then Some (dropWhile (\<lambda>x. x \<noteq> LF) cs) else None)"
  unfolding hash_rx_def
  by (simp only: ms_cat_lit) (simp add: first_hash_tail del: ms.simps split: list.splits)

lemma first_or:
  "first (ms (Or a b) s) = (case first (ms a s) of Some t \<Rightarrow> Some t | None \<Rightarrow> first (ms b s))"
  by (simp add: first_append del: ms.simps(1-6,8,9))

lemmas first_rx =
  first_or first_quoted first_template first_block first_line first_markup first_hash

definition js_first :: "ustr \<Rightarrow> (nat \<times> ustr) option" where
  "js_first s =
     (case s of
        [] \<Rightarrow> None
      | c # cs \<Rightarrow>
          if c = SQUOTE \<or> c = DQUOTE then map_option (Pair 1) (scan_quoted c cs)
          else if c = BACKTICK then map_option (Pair 1) (scan_template cs)
          else if c = SLASH then
            (case cs of
               [] \<Rightarrow> None
             | d # ds \<Rightarrow>
                 if d = STAR then map_option (Pair 2) (find_after [STAR, SLASH] ds)
                 else if d = SLASH then Some (3, dropWhile (\<lambda>x. x \<noteq> LF) ds)
                 else None)
          else None)"

lemma js_match: "match_groups 1 js_pattern s = js_first s"
proof (cases s)
  case Nil
  then show ?thesis
    by (simp add: js_pattern_def js_first_def match_groups_first first_rx
          del: ms.simps match_groups.simps(2))
next
  case (Cons c cs)
  consider "c = SQUOTE" | "c = DQUOTE" | "c = BACKTICK" | "c = SLASH"
    | "c \<noteq> SQUOTE" "c \<noteq> DQUOTE" "c \<noteq> BACKTICK" "c \<noteq> SLASH"
    by blast
  then show ?thesis
  proof cases
    case 1
    with Cons show ?thesis
      by (cases "scan_quoted SQUOTE cs")
         (simp_all add: js_pattern_def js_first_def match_groups_first first_rx
            del: ms.simps match_groups.simps(2) split: list.splits)
  next
    case 2
    with Cons show ?thesis
      by (cases "scan_quoted DQUOTE cs")
         (simp_all add: js_pattern_def js_first_def match_groups_first first_rx
            del: ms.simps match_groups.simps(2) split: list.splits)
  next
    case 3
    with Cons show ?thesis
      by (cases "scan_template cs")
         (simp_all add: js_pattern_def js_first_def match_groups_first first_rx
            del: ms.simps match_groups.simps(2) split: list.splits)
  next
    case 4
    show ?thesis
    proof (cases cs)
      case Nil
      with 4 Cons show ?thesis
        by (simp add: js_pattern_def js_first_def match_groups_first first_rx
              del: ms.simps match_groups.simps(2))
    next
      case (Cons d ds)
      with 4 \<open>s = c # cs\<close> show ?thesis
        by (cases "find_after [STAR, SLASH] ds")
           (simp_all add: js_pattern_def js_first_def match_groups_first first_rx
              del: ms.simps match_groups.simps(2))
    qed
  next
    case 5
    with Cons show ?thesis
      by (simp add: js_pattern_def js_first_def match_groups_first first_rx
            del: ms.simps match_groups.simps(2) split: list.splits)
  qed
qed

definition yml_first :: "ustr \<Rightarrow> (nat \<times> ustr) option" where
  "yml_first s =
     (case s of
        [] \<Rightarrow> None
      | c # cs \<Rightarrow>
          if c = SQUOTE \<or> c = DQUOTE then map_option (Pair 1) (scan_quoted c cs)
          else if c = HASH then Some (2, dropWhile (\<lambda>x. x \<noteq> LF) cs)
          else None)"

lemma yml_match: "match_groups 1 yml_pattern s = yml_first s"
proof (cases s)
  case Nil
  then show ?thesis
    by (simp add: yml_pattern_def yml_first_def match_groups_first first_rx
          del: ms.simps match_groups.simps(2))
next
  case (Cons c cs)
  consider "c = SQUOTE" | "c = DQUOTE" | "c \<noteq> SQUOTE" "c \<noteq> DQUOTE"
    by blast
  then show ?thesis
  proof cases
    case 1
    with Cons show ?thesis
      by (cases "scan_quoted SQUOTE cs")
         (simp_all add: yml_pattern_def yml_first_def match_groups_first first_rx
            del: ms.simps match_groups.simps(2))
  next
    case 2
    with Cons show ?thesis
      by (cases "scan_quoted DQUOTE cs")
         (simp_all add: yml_pattern_def yml_first_def match_groups_first first_rx
            del: ms.simps match_groups.simps(2))
  next
    case 3
    with Cons show ?thesis
      by (simp add: yml_pattern_def yml_first_def match_groups_first first_rx
            del: ms.simps match_groups.simps(2))
  qed
qed

definition css_first :: "ustr \<Rightarrow> (nat \<times> ustr) option" where
  "css_first s =
     (case s of
        [] \<Rightarrow> None
      | c # cs \<Rightarrow>
          (case cs of
             [] \<Rightarrow> None
           | d # ds \<Rightarrow>
               if c = SLASH \<and> d = STAR then map_option (Pair 1) (find_after [STAR, SLASH] ds)
               else None))"

lemma css_match: "match_groups 1 [block_rx] s = css_first s"
  by (simp add: css_first_def match_groups_first first_block
        del: ms.simps match_groups.simps(2) split: list.splits option.splits)

definition html_first :: "ustr \<Rightarrow> (nat \<times> ustr) option" where
  "html_first s =
     (if prefix [60, 33, 45, 45] s then map_option (Pair 1) (find_after [45, 45, 62] (drop 4 s))
      else None)"

lemma html_match: "match_groups 1 [markup_rx] s = html_first s"
  by (simp add: html_first_def match_groups_first first_markup
        del: ms.simps match_groups.simps(2) split: option.splits)

subsection \<open>A match consumes at least one character\<close>

lemma scan_quoted_length: "scan_quoted q s = Some t \<Longrightarrow> length t < length s"
proof (induction q s rule: scan_quoted.induct)
  case (1 q)
  then show ?case by simp
next
  case (2 q c cs)
  then show ?case
    by (cases cs) (auto split: if_splits)
qed

lemma scan_template_length: "scan_template s = Some t \<Longrightarrow> length t < length s"
proof (induction s arbitrary: t rule: scan_template.induct)
  case 1
  then show ?case by simp
next
  case (2 c cs)
  then show ?case
    by (cases cs) (fastforce split: if_splits option.splits)+
qed

lemma find_after_length: "t \<noteq> [] \<Longrightarrow> find_after t s = Some r \<Longrightarrow> length r < length s"
proof (induction s)
  case Nil
  then show ?case by simp
next
  case (Cons c cs)
  then show ?case
    by (cases t) (auto split: if_splits)
qed

lemma dropWhile_length_le: "length (dropWhile P xs) \<le> length xs"
  by (rule length_dropWhile_le)

lemma js_first_cases:
  assumes "js_first (c # cs) = Some (g, t)"
  shows "(\<exists>q. scan_quoted q cs = Some t) \<or> scan_template cs = Some t \<or>
         (\<exists>d ds. cs = d # ds \<and>
            (find_after [STAR, SLASH] ds = Some t \<or> t = dropWhile (\<lambda>x. x \<noteq> LF) ds))"
  using assms unfolding js_first_def
  by (auto split: if_splits list.splits
      simp del: scan_quoted.simps scan_template.simps find_after.simps)

lemma js_first_length: "js_first s = Some (g, t) \<Longrightarrow> length t < length s"
proof (cases s)
  case Nil
  assume "js_first s = Some (g, t)"
  with Nil show ?thesis by (simp add: js_first_def)
next
  case (Cons c cs)
  assume "js_first s = Some (g, t)"
  with Cons have "js_first (c # cs) = Some (g, t)" by simp
  from js_first_cases [OF this] show ?thesis
  proof (elim disjE exE conjE)
    fix q assume "scan_quoted q cs = Some t"
    from scan_quoted_length [OF this] Cons show ?thesis by simp
  next
    assume "scan_template cs = Some t"
    from scan_template_length [OF this] Cons show ?thesis by simp
  next
    fix d ds assume "cs = d # ds" "find_after [STAR, SLASH] ds = Some t"
    with find_after_length [of "[STAR, SLASH]" ds t] Cons show ?thesis by simp
  next
    fix d ds assume "cs = d # ds" "t = dropWhile (\<lambda>x. x \<noteq> LF) ds"
    with dropWhile_length_le [of "\<lambda>x. x \<noteq> LF" ds] Cons show ?thesis by simp
  qed
qed

lemma yml_first_cases:
  assumes "yml_first (c # cs) = Some (g, t)"
  shows "(\<exists>q. scan_quoted q cs = Some t) \<or> t = dropWhile (\<lambda>x. x \<noteq> LF) cs"
  using assms unfolding yml_first_def
  by (auto split: if_splits)

lemma yml_first_length: "yml_first s = Some (g, t) \<Longrightarrow> length t < length s"
proof (cases s)
  case Nil
  assume "yml_first s = Some (g, t)"
  with Nil show ?thesis by (simp add: yml_first_def)
next
  case (Cons c cs)
  assume "yml_first s = Some (g, t)"
  with Cons have "yml_first (c # cs) = Some (g, t)" by simp
  from yml_first_cases [OF this] show ?thesis
  proof (elim disjE exE)
    fix q assume "scan_quoted q cs = Some t"
    from scan_quoted_length [OF this] Cons show ?thesis by simp
  next
    assume "t = dropWhile (\<lambda>x. x \<noteq> LF) cs"
    with dropWhile_length_le [of "\<lambda>x. x \<noteq> LF" cs] Cons show ?thesis by simp
  qed
qed

lemma css_first_length: "css_first s = Some (g, t) \<Longrightarrow> length t < length s"
proof -
  assume a: "css_first s = Some (g, t)"
  then obtain c d ds where s: "s = c # d # ds" and "find_after [STAR, SLASH] ds = Some t"
    unfolding css_first_def by (auto split: list.splits if_splits)
  with find_after_length [of "[STAR, SLASH]" ds t] show ?thesis by simp
qed

lemma html_first_length: "html_first s = Some (g, t) \<Longrightarrow> length t < length s"
proof -
  assume a: "html_first s = Some (g, t)"
  then have "find_after [45, 45, 62] (drop 4 s) = Some t"
    unfolding html_first_def by (auto split: if_splits)
  with find_after_length [of "[45, 45, 62]" "drop 4 s" t] show ?thesis by simp
qed

subsection \<open>One scanning step of each stripper\<close>

lemma js_step:
  "remove_js_ts_comments (c # cs) =
     (case js_first (c # cs) of
        None \<Rightarrow> c # remove_js_ts_comments cs
      | Some (g, t) \<Rightarrow>
          (if g = 1 then take (Suc (length cs) - length t) (c # cs) else []) @
          remove_js_ts_comments t)"
proof (cases "js_first (c # cs)")
  case None
  then show ?thesis
    by (simp add: remove_js_ts_comments_def js_match [unfolded One_nat_def] del: match_groups.simps)
next
  case (Some p)
  obtain g t where p: "p = (g, t)" by (cases p)
  with Some js_first_length [of "c # cs" g t] have "length t < Suc (length cs)" by simp
  with Some p show ?thesis
    by (simp add: remove_js_ts_comments_def js_match [unfolded One_nat_def] js_replacer_def del: match_groups.simps)
qed

lemma js_nil: "remove_js_ts_comments [] = []"
  by (simp add: remove_js_ts_comments_def)

lemma yml_step:
  "remove_yml_comments (c # cs) =
     (case yml_first (c # cs) of
        None \<Rightarrow> c # remove_yml_comments cs
      | Some (g, t) \<Rightarrow>
          (if g = 1 then take (Suc (length cs) - length t) (c # cs) else []) @
          remove_yml_comments t)"
proof (cases "yml_first (c # cs)")
  case None
  then show ?thesis
    by (simp add: remove_yml_comments_def yml_match [unfolded One_nat_def] del: match_groups.simps)
next
  case (Some p)
  obtain g t where p: "p = (g, t)" by (cases p)
  with Some yml_first_length [of "c # cs" g t] have "length t < Suc (length cs)" by simp
  with Some p show ?thesis
    by (simp add: remove_yml_comments_def yml_match [unfolded One_nat_def] yml_replacer_def del: match_groups.simps)
qed

lemma yml_nil: "remove_yml_comments [] = []"
  by (simp add: remove_yml_comments_def)

lemma css_step:
  "remove_css_comments (c # cs) =
     (case css_first (c # cs) of
        None \<Rightarrow> c # remove_css_comments cs
      | Some (g, t) \<Rightarrow> remove_css_comments t)"
proof (cases "css_first (c # cs)")
  case None
  then show ?thesis
    by (simp add: remove_css_comments_def css_match [unfolded One_nat_def] del: match_groups.simps)
next
  case (Some p)
  obtain g t where p: "p = (g, t)" by (cases p)
  with Some css_first_length [of "c # cs" g t] have "length t < Suc (length cs)" by simp
  with Some p show ?thesis
    by (simp add: remove_css_comments_def css_match [unfolded One_nat_def] del: match_groups.simps)
qed

lemma css_nil: "remove_css_comments [] = []"
  by (simp add: remove_css_comments_def)

lemma html_step:
  "remove_html_comments (c # cs) =
     (case html_first (c # cs) of
        None \<Rightarrow> c # remove_html_comments cs
      | Some (g, t) \<Rightarrow> remove_html_comments t)"
proof (cases "html_first (c # cs)")
  case None
  then show ?thesis
    by (simp add: remove_html_comments_def html_match [unfolded One_nat_def] del: match_groups.simps)
next
  case (Some p)
  obtain g t where p: "p = (g, t)" by (cases p)
  with Some html_first_length [of "c # cs" g t] have "length t < Suc (length cs)" by simp
  with Some p show ?thesis
    by (simp add: remove_html_comments_def html_match [unfolded One_nat_def] del: match_groups.simps)
qed

lemma html_nil: "remove_html_comments [] = []"
  by (simp add: remove_html_comments_def)

section \<open>Well-formed comments and literals\<close>

text \<open>
  The notions the properties are stated with: a text occurs inside another
  (\<open>has_sub\<close>); the body of a literal, where a backslash escapes the character
  after it and no unescaped quote occurs (\<open>lit_body\<close>); a text with an unescaped
  closing quote (\<open>has_closing\<close>); a text with none of the characters that can
  start a match (\<open>plain\<close>); the end of a line (\<open>at_line_end\<close>).
\<close>

fun has_sub :: "ustr \<Rightarrow> ustr \<Rightarrow> bool" where
  "has_sub t [] = (t = [])"
| "has_sub t (c # cs) = (prefix t (c # cs) \<or> has_sub t cs)"

fun lit_body :: "nat \<Rightarrow> ustr \<Rightarrow> bool" where
  "lit_body q [] = True"
| "lit_body q (c # cs) =
     (if c = BACKSLASH then (case cs of [] \<Rightarrow> False | d # ds \<Rightarrow> lit_body q ds)
      else c \<noteq> q \<and> lit_body q cs)"

fun no_escaped_lf :: "ustr \<Rightarrow> bool" where
  "no_escaped_lf [] = True"
| "no_escaped_lf (c # cs) =
     (if c = BACKSLASH then (case cs of [] \<Rightarrow> True | d # ds \<Rightarrow> d \<noteq> LF \<and> no_escaped_lf ds)
      else no_escaped_lf cs)"


definition plain :: "nat list \<Rightarrow> ustr \<Rightarrow> bool" where
  "plain ds s = list_all (\<lambda>c. c \<notin> set ds) s"

definition at_line_end :: "ustr \<Rightarrow> bool" where
  "at_line_end post = (case post of [] \<Rightarrow> True | c # r \<Rightarrow> c = LF)"

lemma has_sub_iff: "has_sub t s \<longleftrightarrow> (\<exists>u v. s = u @ t @ v)"
proof (induction s)
  case Nil
  show ?case by auto
next
  case (Cons c cs)
  show ?case
  proof
    assume "has_sub t (c # cs)"
    then consider "prefix t (c # cs)" | "has_sub t cs" by auto
    then show "\<exists>u v. c # cs = u @ t @ v"
    proof cases
      case 1
      then obtain v where "c # cs = t @ v" by (auto simp: prefix_def)
      then have "c # cs = [] @ t @ v" by simp
      then show ?thesis by blast
    next
      case 2
      with Cons obtain u v where "cs = u @ t @ v" by blast
      then have "c # cs = (c # u) @ t @ v" by simp
      then show ?thesis by blast
    qed
  next
    assume "\<exists>u v. c # cs = u @ t @ v"
    then obtain u v where uv: "c # cs = u @ t @ v" by blast
    show "has_sub t (c # cs)"
    proof (cases u)
      case Nil
      with uv have "prefix t (c # cs)" by (simp add: prefix_def)
      then show ?thesis by simp
    next
      case (Cons a u')
      with uv have "cs = u' @ t @ v" by simp
      with Cons.IH have "has_sub t cs" by blast
      then show ?thesis by simp
    qed
  qed
qed

lemma find_after_None: "t \<noteq> [] \<Longrightarrow> find_after t s = None \<longleftrightarrow> \<not> has_sub t s"
  by (induction s) auto

lemma has_sub_drop: "has_sub t (drop n s) \<Longrightarrow> has_sub t s"
proof -
  assume "has_sub t (drop n s)"
  then obtain u v where "drop n s = u @ t @ v" unfolding has_sub_iff by blast
  then have "s = (take n s @ u) @ t @ v"
    by (metis append_take_drop_id append_assoc)
  then show ?thesis unfolding has_sub_iff by blast
qed

lemma find_after_block:
  "\<not> has_sub [STAR, SLASH] body \<Longrightarrow> find_after [STAR, SLASH] (body @ STAR # SLASH # t) = Some t"
proof (induction body)
  case Nil
  show ?case by simp
next
  case (Cons c body)
  then have "\<not> prefix [STAR, SLASH] (c # body)" and nb: "\<not> has_sub [STAR, SLASH] body"
    by simp_all
  then have np: "\<not> prefix [STAR, SLASH] (c # body @ STAR # SLASH # t)"
    by (cases body) auto
  have "find_after [STAR, SLASH] (c # body @ STAR # SLASH # t) =
        find_after [STAR, SLASH] (body @ STAR # SLASH # t)"
    by (subst find_after.simps) (simp only: np if_False)
  with Cons.IH [OF nb] show ?case by (simp only: append_Cons)
qed

lemma find_after_markup:
  "\<not> has_sub [45, 45, 62] body \<Longrightarrow> find_after [45, 45, 62] (body @ 45 # 45 # 62 # t) = Some t"
proof (induction body)
  case Nil
  show ?case by simp
next
  case (Cons c body)
  then have np: "\<not> prefix [45, 45, 62] (c # body)" and nb: "\<not> has_sub [45, 45, 62] body"
    by simp_all
  have np': "\<not> prefix [45, 45, 62] (c # body @ 45 # 45 # 62 # t)"
  proof (cases body)
    case Nil
    then show ?thesis by auto
  next
    case b: (Cons d body')
    show ?thesis
    proof (cases body')
      case Nil
      with b show ?thesis by auto
    next
      case (Cons e body'')
      with b np show ?thesis by auto
    qed
  qed
  have "find_after [45, 45, 62] (c # body @ 45 # 45 # 62 # t) =
        find_after [45, 45, 62] (body @ 45 # 45 # 62 # t)"
    by (subst find_after.simps) (simp only: np' if_False)
  with Cons.IH [OF nb] show ?case by (simp only: append_Cons)
qed

lemma dropWhile_line:
  "LF \<notin> set body \<Longrightarrow> at_line_end post \<Longrightarrow> dropWhile (\<lambda>x. x \<noteq> LF) (body @ post) = post"
  by (induction body) (auto simp: at_line_end_def split: list.splits)

subsection \<open>Delimiters, tokens, and closed and open literals\<close>

definition js_delims :: "nat list" where
  "js_delims = [SQUOTE, DQUOTE, BACKTICK, SLASH]"

definition css_delims :: "nat list" where
  "css_delims = [SLASH]"

definition html_delims :: "nat list" where
  "html_delims = [60]"

definition yml_delims :: "nat list" where
  "yml_delims = [SQUOTE, DQUOTE, HASH]"

text \<open>
  A script read as a sequence of tokens: text with no quote and no slash, a slash that
  opens no comment, a literal, a block comment, a line comment. A token is well formed
  before the text \<open>rest\<close> that follows it when a literal's body has no unescaped quote of
  its kind (and, between single or double quotes, no backslash before a line feed), a
  block comment's body has no \<^verbatim>\<open>*/\<close>, and a line comment runs to the end of its line.
\<close>

definition no_opener :: "ustr \<Rightarrow> bool" where
  "no_opener rest = (case rest of [] \<Rightarrow> True | d # r \<Rightarrow> d \<noteq> STAR \<and> d \<noteq> SLASH)"

datatype token = Text ustr | Division | Literal nat ustr | Block ustr | Line ustr

fun source :: "token \<Rightarrow> ustr" where
  "source (Text s) = s"
| "source Division = [SLASH]"
| "source (Literal q body) = q # body @ [q]"
| "source (Block body) = str ''/*'' @ body @ str ''*/''"
| "source (Line body) = str ''//'' @ body"

fun kept :: "token \<Rightarrow> ustr" where
  "kept (Block body) = []"
| "kept (Line body) = []"
| "kept t = source t"

fun well_formed :: "token \<Rightarrow> ustr \<Rightarrow> bool" where
  "well_formed (Text s) rest = plain js_delims s"
| "well_formed Division rest = no_opener rest"
| "well_formed (Literal q body) rest =
     (if q = BACKTICK then lit_body BACKTICK body
      else (q = SQUOTE \<or> q = DQUOTE) \<and> lit_body q body \<and> no_escaped_lf body)"
| "well_formed (Block body) rest = (\<not> has_sub (str ''*/'') body)"
| "well_formed (Line body) rest = (LF \<notin> set body \<and> at_line_end rest)"

fun tokenised :: "token list \<Rightarrow> bool" where
  "tokenised [] = True"
| "tokenised (t # ts) = (well_formed t (concat (map source ts)) \<and> tokenised ts)"

lemma scan_quoted_closed:
  "q \<noteq> BACKSLASH \<Longrightarrow> lit_body q body \<Longrightarrow> no_escaped_lf body \<Longrightarrow>
   scan_quoted q (body @ q # t) = Some t"
proof (induction q body rule: lit_body.induct)
  case (1 q)
  then show ?case by simp
next
  case (2 q c cs)
  then show ?case
    by (cases cs) (auto split: if_splits)
qed


lemma scan_template_closed:
  "lit_body BACKTICK body \<Longrightarrow> scan_template (body @ BACKTICK # t) = Some t"
proof (induction "BACKTICK" body rule: lit_body.induct)
  case 1
  then show ?case by simp
next
  case (2 c cs)
  show ?case
  proof (cases "c = BACKSLASH")
    case True
    with 2 obtain d ds where cs: "cs = d # ds" and b: "lit_body BACKTICK ds"
      by (cases cs) auto
    from 2(1) [OF True cs b] have ih: "scan_template (ds @ BACKTICK # t) = Some t" .
    have "d \<noteq> BACKSLASH \<and> d \<noteq> BACKTICK \<Longrightarrow>
          scan_template (d # ds @ BACKTICK # t) = scan_template (ds @ BACKTICK # t)"
      by simp
    with ih True cs show ?thesis by auto
  next
    case False
    with 2 show ?thesis by auto
  qed
qed


section \<open>What the strippers do with plain text, comments and literals\<close>

lemma take_matched: "take (Suc (length (m @ t)) - length t) (c # m @ t) = c # m"
  by simp

subsection \<open>Script\<close>

lemma js_first_plain: "c \<notin> set js_delims \<Longrightarrow> js_first (c # cs) = None"
  by (simp add: js_first_def js_delims_def)

lemma js_plain: "plain js_delims pre \<Longrightarrow> remove_js_ts_comments (pre @ r) = pre @ remove_js_ts_comments r"
proof (induction pre)
  case Nil
  show ?case by simp
next
  case (Cons c pre)
  then have "c \<notin> set js_delims" and "plain js_delims pre"
    by (simp_all add: plain_def)
  with Cons.IH show ?case
    by (simp add: js_step js_first_plain)
qed


lemma js_block:
  "\<not> has_sub [STAR, SLASH] body \<Longrightarrow>
   remove_js_ts_comments (SLASH # STAR # body @ STAR # SLASH # post) = remove_js_ts_comments post"
  by (simp add: js_step js_first_def find_after_block)

lemma js_line:
  "LF \<notin> set body \<Longrightarrow> at_line_end post \<Longrightarrow>
   remove_js_ts_comments (SLASH # SLASH # body @ post) = remove_js_ts_comments post"
  by (simp add: js_step js_first_def dropWhile_line)

lemma js_quoted:
  assumes "q = SQUOTE \<or> q = DQUOTE" "lit_body q body" "no_escaped_lf body"
  shows "remove_js_ts_comments (q # body @ q # post) = q # body @ q # remove_js_ts_comments post"
proof -
  from assms have s: "scan_quoted q (body @ q # post) = Some post"
    by (intro scan_quoted_closed) auto
  have "take (Suc (length ((body @ [q]) @ post)) - length post) (q # (body @ [q]) @ post) =
        q # body @ [q]"
    by (rule take_matched)
  then have t: "take (Suc (length (body @ q # post)) - length post) (q # body @ q # post) =
        q # body @ [q]"
    by simp
  from assms(1) s show ?thesis
    by (subst js_step) (auto simp: js_first_def t simp del: take_Cons' length_append)
qed

lemma js_template:
  assumes "lit_body BACKTICK body"
  shows "remove_js_ts_comments (BACKTICK # body @ BACKTICK # post) =
         BACKTICK # body @ BACKTICK # remove_js_ts_comments post"
proof -
  from assms have s: "scan_template (body @ BACKTICK # post) = Some post"
    by (rule scan_template_closed)
  have "take (Suc (length ((body @ [BACKTICK]) @ post)) - length post)
          (BACKTICK # (body @ [BACKTICK]) @ post) = BACKTICK # body @ [BACKTICK]"
    by (rule take_matched)
  then have t: "take (Suc (length (body @ BACKTICK # post)) - length post)
          (BACKTICK # body @ BACKTICK # post) = BACKTICK # body @ [BACKTICK]"
    by simp
  from s show ?thesis
    by (subst js_step) (auto simp: js_first_def t simp del: take_Cons' length_append)
qed




lemma js_slash:
  "no_opener rest \<Longrightarrow> remove_js_ts_comments (SLASH # rest) = SLASH # remove_js_ts_comments rest"
  by (subst js_step) (auto simp: js_first_def no_opener_def split: list.splits)

lemma js_token:
  assumes w: "well_formed t rest"
  shows "remove_js_ts_comments (source t @ rest) = kept t @ remove_js_ts_comments rest"
proof (cases t)
  case (Text s)
  with w show ?thesis by (simp add: js_plain)
next
  case Division
  with w show ?thesis by (simp add: js_slash)
next
  case (Literal q body)
  show ?thesis
  proof (cases "q = BACKTICK")
    case True
    with w Literal have "lit_body BACKTICK body" by simp
    from js_template [OF this] True Literal show ?thesis by simp
  next
    case False
    with w Literal have q: "q = SQUOTE \<or> q = DQUOTE" and b: "lit_body q body"
      and n: "no_escaped_lf body" by simp_all
    from js_quoted [OF q b n] Literal show ?thesis by simp
  qed
next
  case (Block body)
  with w have "\<not> has_sub [STAR, SLASH] body" by simp
  from js_block [OF this] Block show ?thesis by simp
next
  case (Line body)
  with w have "LF \<notin> set body" "at_line_end rest" by simp_all
  from js_line [OF this] Line show ?thesis by simp
qed

lemma js_tokens:
  "tokenised ts \<Longrightarrow> remove_js_ts_comments (concat (map source ts)) = concat (map kept ts)"
proof (induction ts)
  case Nil
  show ?case by (simp add: js_nil)
next
  case (Cons t ts)
  then have w: "well_formed t (concat (map source ts))" and r: "tokenised ts" by simp_all
  from js_token [OF w] Cons.IH [OF r] show ?case by simp
qed

subsection \<open>Stylesheet\<close>

lemma css_first_plain: "c \<notin> set css_delims \<Longrightarrow> css_first (c # cs) = None"
  by (simp add: css_first_def css_delims_def split: list.splits)

lemma css_plain: "plain css_delims pre \<Longrightarrow> remove_css_comments (pre @ r) = pre @ remove_css_comments r"
proof (induction pre)
  case Nil
  show ?case by simp
next
  case (Cons c pre)
  then have "c \<notin> set css_delims" and "plain css_delims pre"
    by (simp_all add: plain_def)
  with Cons.IH show ?case
    by (simp add: css_step css_first_plain)
qed

lemma css_plain_id: "plain css_delims s \<Longrightarrow> remove_css_comments s = s"
  using css_plain [of s "[]"] by (simp add: css_nil)

lemma css_block:
  "\<not> has_sub [STAR, SLASH] body \<Longrightarrow>
   remove_css_comments (SLASH # STAR # body @ STAR # SLASH # post) = remove_css_comments post"
  by (simp add: css_step css_first_def find_after_block)



lemma css_before_opener:
  "\<not> has_sub [SLASH, STAR] pre \<Longrightarrow>
   remove_css_comments (pre @ SLASH # STAR # r) = pre @ remove_css_comments (SLASH # STAR # r)"
proof (induction pre)
  case Nil
  show ?case by simp
next
  case (Cons c pre)
  then have np: "\<not> prefix [SLASH, STAR] (c # pre)" and nb: "\<not> has_sub [SLASH, STAR] pre"
    by simp_all
  have "css_first (c # pre @ SLASH # STAR # r) = None"
    using np by (cases pre) (auto simp: css_first_def)
  with Cons.IH [OF nb] show ?case
    by (simp add: css_step)
qed

subsection \<open>Markup\<close>

lemma html_first_plain: "c \<noteq> 60 \<Longrightarrow> html_first (c # cs) = None"
  by (simp add: html_first_def)

lemma html_plain: "plain html_delims pre \<Longrightarrow> remove_html_comments (pre @ r) = pre @ remove_html_comments r"
proof (induction pre)
  case Nil
  show ?case by simp
next
  case (Cons c pre)
  then have "c \<noteq> 60" and "plain html_delims pre"
    by (simp_all add: plain_def html_delims_def)
  with Cons.IH show ?case
    by (simp add: html_step html_first_plain)
qed

lemma html_plain_id: "plain html_delims s \<Longrightarrow> remove_html_comments s = s"
  using html_plain [of s "[]"] by (simp add: html_nil)

lemma html_comment:
  "\<not> has_sub [45, 45, 62] body \<Longrightarrow>
   remove_html_comments (60 # 33 # 45 # 45 # body @ 45 # 45 # 62 # post) = remove_html_comments post"
  by (simp add: html_step html_first_def find_after_markup)

lemma html_no_terminator: "\<not> has_sub [45, 45, 62] s \<Longrightarrow> remove_html_comments s = s"
proof (induction s)
  case Nil
  show ?case by (simp add: html_nil)
next
  case (Cons c cs)
  then have ih: "remove_html_comments cs = cs" by simp
  from Cons.prems have "\<not> has_sub [45, 45, 62] (drop 4 (c # cs))"
    using has_sub_drop by blast
  then have "find_after [45, 45, 62] (drop 4 (c # cs)) = None"
    by (subst find_after_None) simp_all
  then have "html_first (c # cs) = None"
    by (simp only: html_first_def) simp
  with ih show ?case by (simp add: html_step)
qed


lemma html_before_opener:
  "\<not> has_sub [60, 33, 45, 45] pre \<Longrightarrow>
   remove_html_comments (pre @ 60 # 33 # 45 # 45 # r) =
   pre @ remove_html_comments (60 # 33 # 45 # 45 # r)"
proof (induction pre)
  case Nil
  show ?case by simp
next
  case (Cons c pre)
  then have np: "\<not> prefix [60, 33, 45, 45] (c # pre)" and nb: "\<not> has_sub [60, 33, 45, 45] pre"
    by simp_all
  have np': "\<not> prefix [60, 33, 45, 45] (c # pre @ 60 # 33 # 45 # 45 # r)"
  proof (cases pre)
    case Nil
    then show ?thesis by auto
  next
    case p1: (Cons d pre1)
    show ?thesis
    proof (cases pre1)
      case Nil
      with p1 show ?thesis by auto
    next
      case p2: (Cons e pre2)
      show ?thesis
      proof (cases pre2)
        case Nil
        with p1 p2 show ?thesis by auto
      next
        case (Cons f pre3)
        with p1 p2 np show ?thesis by auto
      qed
    qed
  qed
  then have "html_first (c # pre @ 60 # 33 # 45 # 45 # r) = None"
    by (simp only: html_first_def if_False append_Cons)
  with Cons.IH [OF nb] show ?case
    by (simp add: html_step)
qed

subsection \<open>Config\<close>

lemma yml_first_plain: "c \<notin> set yml_delims \<Longrightarrow> yml_first (c # cs) = None"
  by (simp add: yml_first_def yml_delims_def)

lemma yml_plain: "plain yml_delims pre \<Longrightarrow> remove_yml_comments (pre @ r) = pre @ remove_yml_comments r"
proof (induction pre)
  case Nil
  show ?case by simp
next
  case (Cons c pre)
  then have "c \<notin> set yml_delims" and "plain yml_delims pre"
    by (simp_all add: plain_def)
  with Cons.IH show ?case
    by (simp add: yml_step yml_first_plain)
qed

lemma yml_plain_id: "plain yml_delims s \<Longrightarrow> remove_yml_comments s = s"
  using yml_plain [of s "[]"] by (simp add: yml_nil)

lemma yml_hash:
  "LF \<notin> set body \<Longrightarrow> at_line_end post \<Longrightarrow>
   remove_yml_comments (HASH # body @ post) = remove_yml_comments post"
  by (simp add: yml_step yml_first_def dropWhile_line)


section \<open>Lines of the compacted text\<close>



declare splitlines.simps(2) [simp del]

definition terminated :: "ustr list \<Rightarrow> ustr" where
  "terminated ls = concat (map (\<lambda>l. l @ [LF]) ls)"




lemma linebreak_is_space: "is_linebreak c \<Longrightarrow> is_space c"
  by (auto simp: is_linebreak_def is_space_def)

lemma linebreak_LF: "is_linebreak LF"
  by (simp add: is_linebreak_def)









lemma splitlines_nobreak: "l \<in> set (splitlines s) \<Longrightarrow> \<forall>c\<in>set l. \<not> is_linebreak c"
proof (induction s rule: splitlines.induct)
  case 1
  then show ?case by simp
next
  case (2 c cs)
  let ?tw = "takeWhile (\<lambda>x. \<not> is_linebreak x) (c # cs)"
  let ?dw = "dropWhile (\<lambda>x. \<not> is_linebreak x) (c # cs)"
  from "2.prems" have "l = ?tw \<or> l \<in> set (splitlines (skip_break ?dw))"
    by (subst (asm) splitlines.simps) (simp only: set_simps insert_iff)
  then show ?case
  proof
    assume "l = ?tw"
    then show ?thesis by (auto dest: set_takeWhileD)
  next
    assume "l \<in> set (splitlines (skip_break ?dw))"
    then show ?thesis by (rule "2.IH")
  qed
qed

lemma splitlines_line:
  assumes "\<forall>c\<in>set l. \<not> is_linebreak c"
  shows "splitlines (l @ LF # rest) = l # splitlines rest"
proof -
  have tw: "takeWhile (\<lambda>x. \<not> is_linebreak x) (l @ LF # rest) = l"
    using assms by (simp add: takeWhile_tail linebreak_LF)
  have dw: "dropWhile (\<lambda>x. \<not> is_linebreak x) (l @ LF # rest) = LF # rest"
    using assms by (simp add: dropWhile_append3 linebreak_LF)
  have sk: "skip_break (LF # rest) = rest"
    by (simp add: skip_break_def split: list.splits)
  obtain c cs where s: "l @ LF # rest = c # cs" by (cases l) auto
  have "splitlines (c # cs) = l # splitlines rest"
    by (subst splitlines.simps) (simp only: tw [unfolded s] dw [unfolded s] sk)
  with s show ?thesis by (simp only:)
qed

lemma splitlines_terminated:
  "\<forall>l\<in>set ls. \<forall>c\<in>set l. \<not> is_linebreak c \<Longrightarrow> splitlines (terminated ls) = ls"
proof (induction ls)
  case Nil
  show ?case by (simp add: terminated_def)
next
  case (Cons l ls)
  then have "splitlines (terminated ls) = ls" and "\<forall>c\<in>set l. \<not> is_linebreak c"
    by simp_all
  then show ?case
    using splitlines_line [of l "terminated ls"] by (simp add: terminated_def)
qed

lemma join_lines_terminated: "ls \<noteq> [] \<Longrightarrow> join_lines ls @ [LF] = terminated ls"
  by (induction ls rule: join_lines.induct) (simp_all add: terminated_def)

lemma final_content_eq:
  "final_content s = terminated (filter (\<lambda>line. strip line \<noteq> []) (splitlines s))"
proof (cases "filter (\<lambda>line. strip line \<noteq> []) (splitlines s) = []")
  case True
  then show ?thesis by (simp add: final_content_def terminated_def)
next
  case False
  then show ?thesis
    by (simp add: final_content_def Let_def join_lines_terminated)
qed

lemma splitlines_final:
  "splitlines (final_content s) = filter (\<lambda>line. strip line \<noteq> []) (splitlines s)"
proof -
  have "\<forall>l\<in>set (filter (\<lambda>line. strip line \<noteq> []) (splitlines s)). \<forall>c\<in>set l. \<not> is_linebreak c"
    using splitlines_nobreak by auto
  then show ?thesis
    by (simp only: final_content_eq splitlines_terminated)
qed




lemma terminated_chars: "c \<in> set (terminated ls) \<Longrightarrow> \<exists>l\<in>set ls. c \<in> set l \<or> c = LF"
  by (induction ls) (auto simp: terminated_def)

lemma final_content_chars:
  assumes "c \<in> set (final_content s)" "is_linebreak c"
  shows "c = LF"
proof -
  from assms(1) have "c \<in> set (terminated (filter (\<lambda>line. strip line \<noteq> []) (splitlines s)))"
    by (simp only: final_content_eq)
  from terminated_chars [OF this]
  obtain l where "l \<in> set (filter (\<lambda>line. strip line \<noteq> []) (splitlines s))"
      and c: "c \<in> set l \<or> c = LF"
    by blast
  then have l: "l \<in> set (splitlines s)" by simp
  with splitlines_nobreak [OF l] c assms(2) show ?thesis by auto
qed

section \<open>Evaluation on concrete texts\<close>

lemmas scan_eval =
  js_step js_nil yml_step yml_nil css_step css_nil html_step html_nil
  js_first_def yml_first_def css_first_def html_first_def

lemmas compact_eval =
  final_content_def splitlines.simps skip_break_def strip_def is_space_def is_linebreak_def Let_def

lemmas process_eval = process_content_def new_content_def

section \<open>Claims\<close>

text \<open>
  C8. A file whose extension, as \<^verbatim>\<open>os.path.splitext\<close> reads it, is none of
  \<^verbatim>\<open>.ts .tsx .html .css .yml\<close> is left as it is: \<^verbatim>\<open>process_file\<close> returns before it
  strips, compacts or writes anything.
\<close>

theorem unknown_extension_noop:
  "snd (splitext filepath) \<notin> set [str ''.ts'', str ''.tsx'', str ''.html'', str ''.css'', str ''.yml'']
   \<Longrightarrow> process_file filepath fs = fs"
  by (cases "fs filepath") (auto simp: process_file_def process_content_def new_content_def)

theorem unknown_extension_noop_witness:
  "process_file (str ''docs/notes.md'') [str ''docs/notes.md'' \<mapsto> str ''a  // b'' @ [LF, LF]] =
   [str ''docs/notes.md'' \<mapsto> str ''a  // b'' @ [LF, LF]]"
proof -
  have "snd (splitext (str ''docs/notes.md'')) = str ''.md''"
    by (simp add: splitext_def rfind_def)
  then have "snd (splitext (str ''docs/notes.md'')) \<notin>
      set [str ''.ts'', str ''.tsx'', str ''.html'', str ''.css'', str ''.yml'']"
    by simp
  then show ?thesis by (rule unknown_extension_noop)
qed

text \<open>
  C5. Whatever the dialect, the text written back has no line whose stripped content
  is empty: its lines are exactly the non-blank lines of the stripped text, in their
  order, joined by one line feed and closed by one line feed; when no line survives it
  is the empty text.
\<close>

theorem compaction_output:
  assumes "process_content extension content = Some out"
  shows "\<exists>stripped. new_content extension content = Some stripped \<and>
           splitlines out = filter (\<lambda>line. strip line \<noteq> []) (splitlines stripped) \<and>
           out = (if filter (\<lambda>line. strip line \<noteq> []) (splitlines stripped) = [] then []
                  else join_lines (filter (\<lambda>line. strip line \<noteq> []) (splitlines stripped)) @ [LF]) \<and>
           (\<forall>line\<in>set (splitlines out). strip line \<noteq> [])"
proof -
  from assms obtain stripped where n: "new_content extension content = Some stripped"
      and o: "out = final_content stripped"
    by (auto simp: process_content_def)
  have 1: "splitlines out = filter (\<lambda>line. strip line \<noteq> []) (splitlines stripped)"
    unfolding o by (rule splitlines_final)
  have 2: "out = (if filter (\<lambda>line. strip line \<noteq> []) (splitlines stripped) = [] then []
                  else join_lines (filter (\<lambda>line. strip line \<noteq> []) (splitlines stripped)) @ [LF])"
    unfolding o by (simp add: final_content_def Let_def)
  have 3: "\<forall>line\<in>set (splitlines out). strip line \<noteq> []"
    unfolding 1 by simp
  from n 1 2 3 show ?thesis by blast
qed

theorem compaction_output_witness:
  "process_content (str ''.css'') (str ''a  '' @ [LF, 32, LF] @ str ''/* c */'' @ [CR, LF] @ str ''b'') =
     Some (str ''a  '' @ LF # str ''b'' @ [LF]) \<and>
   splitlines (str ''a  '' @ LF # str ''b'' @ [LF]) = [str ''a  '', str ''b'']"
proof -
  have e: "process_content (str ''.css'')
      (str ''a  '' @ [LF, 32, LF] @ str ''/* c */'' @ [CR, LF] @ str ''b'') =
     Some (str ''a  '' @ LF # str ''b'' @ [LF])"
    by (simp add: process_eval scan_eval compact_eval)
  from compaction_output [OF e] e show ?thesis
    by (simp add: process_eval scan_eval compact_eval)
qed

text \<open>
  C10. In the text written back every line terminator is the line feed: no other
  character that \<^verbatim>\<open>splitlines\<close> takes for a line boundary (CR, VT, FF, FS, GS, RS, NEL,
  LS, PS) occurs in it, so a text with CR LF terminators comes back with LF ones.
\<close>

theorem output_terminators:
  "process_content extension content = Some out \<Longrightarrow> c \<in> set out \<Longrightarrow> is_linebreak c \<Longrightarrow> c = LF"
  by (auto simp: process_content_def dest: final_content_chars)

theorem output_terminators_witness:
  "process_content (str ''.yml'') (str ''a: 1'' @ [CR, LF] @ str ''b: 2'' @ [CR, LF]) =
     Some (str ''a: 1'' @ LF # str ''b: 2'' @ [LF]) \<and>
   CR \<notin> set (str ''a: 1'' @ LF # str ''b: 2'' @ [LF])"
proof -
  have e: "process_content (str ''.yml'') (str ''a: 1'' @ [CR, LF] @ str ''b: 2'' @ [CR, LF]) =
     Some (str ''a: 1'' @ LF # str ''b: 2'' @ [LF])"
    by (simp add: process_eval scan_eval compact_eval)
  have "is_linebreak CR" by (simp add: is_linebreak_def)
  with output_terminators [OF e, of CR] have "CR \<notin> set (str ''a: 1'' @ LF # str ''b: 2'' @ [LF])"
    by auto
  with e show ?thesis by simp
qed

text \<open>
  C7 (counterexample). For the text \<^verbatim>\<open>const x = "a // not a comment"; // real comment\<close>,
  a line feed and \<^verbatim>\<open>let y = 1;\<close>, the lines written back are not the two lines
  \<^verbatim>\<open>const x = "a // not a comment";\<close> and \<^verbatim>\<open>let y = 1;\<close>: the first line keeps
  the space that stood before the comment.
\<close>

theorem scenario_lines_counterexample:
  "map_option splitlines
     (process_content (str ''.ts'')
        (str ''const x = '' @ DQUOTE # str ''a // not a comment'' @ DQUOTE #
         str ''; // real comment'' @ LF # str ''let y = 1;'')) \<noteq>
   Some [str ''const x = '' @ DQUOTE # str ''a // not a comment'' @ DQUOTE # str '';'',
         str ''let y = 1;'']"
  by (simp add: process_eval scan_eval compact_eval)

text \<open>
  C7 (amended). For that text the lines written back are
  \<^verbatim>\<open>const x = "a // not a comment"; \<close> (the semicolon followed by one space) and
  \<^verbatim>\<open>let y = 1;\<close>: the comment goes from its \<^verbatim>\<open>//\<close> to the end of the line, the quoted
  \<^verbatim>\<open>//\<close> stays, and the text ends with one line feed.
\<close>

theorem scenario_output:
  "process_content (str ''.ts'')
     (str ''const x = '' @ DQUOTE # str ''a // not a comment'' @ DQUOTE #
      str ''; // real comment'' @ LF # str ''let y = 1;'') =
   Some (str ''const x = '' @ DQUOTE # str ''a // not a comment'' @ DQUOTE # str ''; '' @
         LF # str ''let y = 1;'' @ [LF]) \<and>
   splitlines (str ''const x = '' @ DQUOTE # str ''a // not a comment'' @ DQUOTE # str ''; '' @
         LF # str ''let y = 1;'' @ [LF]) =
   [str ''const x = '' @ DQUOTE # str ''a // not a comment'' @ DQUOTE # str ''; '',
    str ''let y = 1;'']"
  by (simp add: process_eval scan_eval compact_eval)






text \<open>
  C2 (the failing input). In the script below the first literal holds a backslash
  followed by a line feed, so the pattern does not recognise it: its opening quote is
  passed over, its closing quote is read as the opening of a literal that runs to the
  next quote, and the block comment between the two literals is taken for the body of
  that literal. The comment, well formed and outside both literals, is written back.
  This is the defect shown for C1; the same script with backticks loses its comment.
\<close>

theorem comment_after_continued_literal_kept:
  "lit_body SQUOTE [97, BACKSLASH, LF, 98] \<and> lit_body SQUOTE [100] \<and>
   remove_js_ts_comments
     (str ''x = '' @ [SQUOTE, 97, BACKSLASH, LF, 98, SQUOTE] @ str ''; /* c */ y = '' @
      [SQUOTE, 100, SQUOTE] @ str '';'') =
     str ''x = '' @ [SQUOTE, 97, BACKSLASH, LF, 98, SQUOTE] @ str ''; /* c */ y = '' @
      [SQUOTE, 100, SQUOTE] @ str '';'' \<and>
   process_content (str ''.ts'')
     (str ''x = '' @ [SQUOTE, 97, BACKSLASH, LF, 98, SQUOTE] @ str ''; /* c */ y = '' @
      [SQUOTE, 100, SQUOTE] @ str '';'') =
     Some (str ''x = '' @ [SQUOTE, 97, BACKSLASH, LF, 98, SQUOTE] @ str ''; /* c */ y = '' @
      [SQUOTE, 100, SQUOTE] @ str '';'' @ [LF]) \<and>
   remove_js_ts_comments
     (str ''x = '' @ [BACKTICK, 97, BACKSLASH, LF, 98, BACKTICK] @ str ''; /* c */ y = '' @
      [BACKTICK, 100, BACKTICK] @ str '';'') =
     str ''x = '' @ [BACKTICK, 97, BACKSLASH, LF, 98, BACKTICK] @ str '';  y = '' @
      [BACKTICK, 100, BACKTICK] @ str '';''"
  by (simp add: process_eval scan_eval compact_eval)

text \<open>
  What does hold of comments. In a script that is a sequence of well-formed tokens
  (text, slashes that open no comment, literals with no backslash before a line feed
  between single or double quotes, block comments, line comments) every comment is
  removed whole and every other token is written as it is, wherever the comment
  stands: after a literal, after a division, after another comment. In a stylesheet
  and in markup, a terminated comment is removed whole after any text that holds no
  comment opener, and the text before it is kept as it is.
\<close>

lemma comments_removed:
  "(tokenised ts \<longrightarrow>
      remove_js_ts_comments (concat (map source ts)) = concat (map kept ts)) \<and>
   (\<not> has_sub (str ''/*'') pre \<and> \<not> has_sub (str ''*/'') body \<longrightarrow>
      remove_css_comments (pre @ str ''/*'' @ body @ str ''*/'' @ post) =
      pre @ remove_css_comments post) \<and>
   (\<not> has_sub (str ''<!--'') pre \<and> \<not> has_sub (str ''-->'') body \<longrightarrow>
      remove_html_comments (pre @ str ''<!--'' @ body @ str ''-->'' @ post) =
      pre @ remove_html_comments post)"
proof (intro conjI impI)
  assume "tokenised ts"
  then show "remove_js_ts_comments (concat (map source ts)) = concat (map kept ts)"
    by (rule js_tokens)
next
  assume "\<not> has_sub (str ''/*'') pre \<and> \<not> has_sub (str ''*/'') body"
  then have p: "\<not> has_sub [SLASH, STAR] pre" and b: "\<not> has_sub [STAR, SLASH] body"
    by simp_all
  have "remove_css_comments (pre @ SLASH # STAR # body @ STAR # SLASH # post) =
        pre @ remove_css_comments post"
    by (simp only: css_before_opener [OF p] css_block [OF b])
  then show "remove_css_comments (pre @ str ''/*'' @ body @ str ''*/'' @ post) =
      pre @ remove_css_comments post"
    by simp
next
  assume "\<not> has_sub (str ''<!--'') pre \<and> \<not> has_sub (str ''-->'') body"
  then have p: "\<not> has_sub [60, 33, 45, 45] pre" and b: "\<not> has_sub [45, 45, 62] body"
    by simp_all
  have "remove_html_comments (pre @ 60 # 33 # 45 # 45 # body @ 45 # 45 # 62 # post) =
        pre @ remove_html_comments post"
    by (simp only: html_before_opener [OF p] html_comment [OF b])
  then show "remove_html_comments (pre @ str ''<!--'' @ body @ str ''-->'' @ post) =
      pre @ remove_html_comments post"
    by simp
qed

text \<open>
  For instance: a line comment after a literal that holds \<^verbatim>\<open>//\<close>, and a block comment
  after a division; a stylesheet comment after an address with slashes; a markup
  comment inside an element.
\<close>

lemma comments_removed_example:
  "remove_js_ts_comments
     (str ''x = '' @ DQUOTE # str ''a // b'' @ DQUOTE # str ''; // c'' @ LF #
      str ''y = x / 2 /* d */;'') =
     str ''x = '' @ DQUOTE # str ''a // b'' @ DQUOTE # str ''; '' @ LF # str ''y = x / 2 ;'' \<and>
   remove_css_comments (str ''a { b: url(c/d) } /* e */ f { }'') =
     str ''a { b: url(c/d) }  f { }'' \<and>
   remove_html_comments (str ''<div><!-- note -->text</div>'') = str ''<div>text</div>''"
proof -
  let ?ts = "[Text (str ''x = ''), Literal DQUOTE (str ''a // b''), Text (str ''; ''),
              Line (str '' c''), Text (LF # str ''y = x ''), Division, Text (str '' 2 ''),
              Block (str '' d ''), Text (str '';'')]"
  have t: "tokenised ?ts"
    by (simp add: plain_def js_delims_def no_opener_def at_line_end_def)
  have a: "remove_js_ts_comments (concat (map source ?ts)) = concat (map kept ?ts)"
    using comments_removed [of ?ts] t by (simp only: simp_thms)
  have c: "\<not> has_sub (str ''/*'') (str ''a { b: url(c/d) } '') \<and>
      \<not> has_sub (str ''*/'') (str '' e '')"
    by simp
  have h: "\<not> has_sub (str ''<!--'') (str ''<div>'') \<and> \<not> has_sub (str ''-->'') (str '' note '')"
    by simp
  have p: "remove_css_comments (str '' f { }'') = str '' f { }''"
    "remove_html_comments (str ''text</div>'') = str ''text</div>''"
    by (simp_all add: css_plain_id html_no_terminator plain_def css_delims_def)
  have b: "remove_css_comments (str ''a { b: url(c/d) } /* e */ f { }'') =
     str ''a { b: url(c/d) }  f { }''"
    using comments_removed [of "[]" "str ''a { b: url(c/d) } ''" "str '' e ''" "str '' f { }''"] c p(1)
    by simp
  have d: "remove_html_comments (str ''<div><!-- note -->text</div>'') = str ''<div>text</div>''"
    using comments_removed [of "[]" "str ''<div>''" "str '' note ''" "str ''text</div>''"] h p(2)
    by simp
  from a b d show ?thesis by simp
qed







text \<open>
  C1 (the failing input). A single-quoted literal may hold a backslash followed by a
  line feed (a line continuation): by the rule that a backslash escapes the character
  after it, the text between the quotes below is the body of a well-formed literal.
  The pattern's \<^verbatim>\<open>\\.\<close> does not match a backslash before a line feed, so the opening
  quote matches nothing, the \<^verbatim>\<open>//\<close> inside the literal is taken for a comment, and the
  rest of the line, closing quote included, is removed. The same body between backticks
  is kept.
\<close>

theorem continued_literal_stripped:
  "lit_body SQUOTE ([97, BACKSLASH, LF] @ str '' // b'') \<and>
   remove_js_ts_comments ([SQUOTE, 97, BACKSLASH, LF] @ str '' // b'' @ [SQUOTE]) =
     [SQUOTE, 97, BACKSLASH, LF, 32] \<and>
   remove_js_ts_comments ([BACKTICK, 97, BACKSLASH, LF] @ str '' // b'' @ [BACKTICK]) =
     [BACKTICK, 97, BACKSLASH, LF] @ str '' // b'' @ [BACKTICK]"
  by (simp add: scan_eval)

text \<open>
  What does hold of literals: after plain text, a backtick literal whose body has no
  unescaped backtick, and a single- or double-quoted literal whose body has no
  unescaped quote of its kind and no backslash before a line feed, is kept whole, with
  every \<^verbatim>\<open>//\<close> and \<^verbatim>\<open>/*\<close> in it, and scanning goes on after its closing quote.
\<close>

lemma literal_kept:
  "(plain js_delims pre \<and> (q = SQUOTE \<or> q = DQUOTE) \<and> lit_body q body \<and> no_escaped_lf body \<longrightarrow>
      remove_js_ts_comments (pre @ q # body @ q # post) =
      pre @ q # body @ q # remove_js_ts_comments post) \<and>
   (plain js_delims pre \<and> lit_body BACKTICK body \<longrightarrow>
      remove_js_ts_comments (pre @ BACKTICK # body @ BACKTICK # post) =
      pre @ BACKTICK # body @ BACKTICK # remove_js_ts_comments post)"
proof (intro conjI impI)
  assume "plain js_delims pre \<and> (q = SQUOTE \<or> q = DQUOTE) \<and> lit_body q body \<and> no_escaped_lf body"
  then have p: "plain js_delims pre" and q: "q = SQUOTE \<or> q = DQUOTE"
    and b: "lit_body q body" and n: "no_escaped_lf body" by simp_all
  show "remove_js_ts_comments (pre @ q # body @ q # post) =
      pre @ q # body @ q # remove_js_ts_comments post"
    by (simp only: js_plain [OF p] js_quoted [OF q b n])
next
  assume "plain js_delims pre \<and> lit_body BACKTICK body"
  then have p: "plain js_delims pre" and b: "lit_body BACKTICK body" by simp_all
  show "remove_js_ts_comments (pre @ BACKTICK # body @ BACKTICK # post) =
      pre @ BACKTICK # body @ BACKTICK # remove_js_ts_comments post"
    by (simp only: js_plain [OF p] js_template [OF b])
qed

end
